theory Spec2Isabelle
  imports Complex_Main "HOL-Library.Sublist"
begin

section \<open>Round detection worker: data model\<close>

text \<open>
  The embedding follows \<^verbatim>\<open>src/worker/worker.py\<close>. Timestamps are Python floats in the
  source; here they are exact rationals, so \<open>+\<close>, \<open>-\<close> and the comparisons are the
  mathematical ones. The sampler of the source only produces integer-valued floats
  (\<^verbatim>\<open>float(timestamp)\<close> for \<^verbatim>\<open>timestamp in range(0, int(duration), 5)\<close>), on which
  double arithmetic is exact.
\<close>

type_synonym timestamp = rat

text \<open>A gameplay period is the Python tuple \<^verbatim>\<open>(current_start, last_timestamp)\<close>.\<close>

type_synonym period = "timestamp \<times> timestamp"

text \<open>
  The dict appended to \<^verbatim>\<open>rounds\<close>, with keys \<^verbatim>\<open>'round'\<close>, \<^verbatim>\<open>'start'\<close>, \<^verbatim>\<open>'end'\<close>
  and \<^verbatim>\<open>'duration'\<close>.
\<close>

record round_rec =
  r_round :: int
  r_start :: timestamp
  r_end :: timestamp
  r_duration :: timestamp

text \<open>The only exception the list code of the worker could raise.\<close>

datatype error = IndexError

text \<open>
  Python's \<^verbatim>\<open>xs[i]\<close>: a negative index counts from the end, an index out of range
  raises \<^verbatim>\<open>IndexError\<close>.
\<close>

definition list_index :: "'a list \<Rightarrow> int \<Rightarrow> error + 'a" where
  "list_index xs i =
     (if 0 \<le> i \<and> i < int (length xs) then Inr (xs ! nat i)
      else if i < 0 \<and> - int (length xs) \<le> i then Inr (xs ! nat (int (length xs) + i))
      else Inl IndexError)"

text \<open>
  Python's \<^verbatim>\<open>round(x, 2)\<close>: the nearest multiple of one hundredth, a tie going to the
  even one.
\<close>

definition round_half_even :: "rat \<Rightarrow> int" where
  "round_half_even q =
     (let f = \<lfloor>q\<rfloor>; d = q - of_int f
      in if d < 1 / 2 then f
         else if 1 / 2 < d then f + 1
         else if even f then f else f + 1)"

definition round2 :: "timestamp \<Rightarrow> timestamp" where
  "round2 x = of_int (round_half_even (x * 100)) / 100"

section \<open>Gameplay periods from the successful samples\<close>

text \<open>
  Lines 178 to 194 of \<^verbatim>\<open>extract_keyframes_and_detect_rounds\<close>. The loop state is
  \<^verbatim>\<open>(current_start, last_timestamp, gameplay_periods)\<close>; the loop runs over
  \<^verbatim>\<open>scene_changes[1:]\<close>, and the final period is appended after it.
\<close>

fun periods_loop ::
  "timestamp list \<Rightarrow> timestamp \<times> timestamp \<times> period list \<Rightarrow> timestamp \<times> timestamp \<times> period list"
where
  "periods_loop [] s = s"
| "periods_loop (timestamp # rest) (current_start, last_timestamp, gameplay_periods) =
     (let gap = timestamp - last_timestamp
      in if gap > 180
         then periods_loop rest
                (timestamp, timestamp, gameplay_periods @ [(current_start, last_timestamp)])
         else periods_loop rest (current_start, timestamp, gameplay_periods))"

definition detect_gameplay_periods :: "timestamp list \<Rightarrow> error + period list" where
  "detect_gameplay_periods scene_changes =
     (if scene_changes \<noteq> [] then
        (case list_index scene_changes 0 of
           Inl e \<Rightarrow> Inl e
         | Inr first \<Rightarrow>
             (case periods_loop (drop 1 scene_changes) (first, first, []) of
                (current_start, last_timestamp, gameplay_periods) \<Rightarrow>
                  Inr (gameplay_periods @ [(current_start, last_timestamp)])))
      else Inr [])"

section \<open>Rounds from the win timestamps\<close>

text \<open>
  The inner loop of the validity filter (lines 218 to 221): the first period that
  contains \<^verbatim>\<open>win_time\<close> appends it, and \<^verbatim>\<open>break\<close> leaves the loop.
\<close>

fun scan_periods :: "timestamp \<Rightarrow> period list \<Rightarrow> timestamp list \<Rightarrow> timestamp list" where
  "scan_periods win_time [] valid_wins = valid_wins"
| "scan_periods win_time ((start, end) # rest) valid_wins =
     (if start \<le> win_time \<and> win_time \<le> end then valid_wins @ [win_time]
      else scan_periods win_time rest valid_wins)"

text \<open>The outer loop of the filter (line 217).\<close>

fun filter_wins :: "timestamp list \<Rightarrow> period list \<Rightarrow> timestamp list \<Rightarrow> timestamp list" where
  "filter_wins [] gameplay_periods valid_wins = valid_wins"
| "filter_wins (win_time # rest) gameplay_periods valid_wins =
     filter_wins rest gameplay_periods (scan_periods win_time gameplay_periods valid_wins)"

text \<open>
  The loop \<^verbatim>\<open>for i, win_time in enumerate(valid_wins)\<close> (lines 230 to 248): \<open>i\<close> is the
  running index, the fourth argument the part of \<^verbatim>\<open>valid_wins\<close> not yet visited, the
  last the list \<^verbatim>\<open>rounds\<close> built so far.
\<close>

fun rounds_loop ::
  "timestamp \<Rightarrow> timestamp list \<Rightarrow> int \<Rightarrow> timestamp list \<Rightarrow> round_rec list
     \<Rightarrow> error + round_rec list"
where
  "rounds_loop first_gameplay_start valid_wins i [] rounds = Inr rounds"
| "rounds_loop first_gameplay_start valid_wins i (win_time # rest) rounds =
     (case (if i = 0 then Inr (max first_gameplay_start (win_time - 90))
            else (case list_index valid_wins (i - 1) of
                    Inl e \<Rightarrow> Inl e
                  | Inr prev \<Rightarrow> Inr (prev + 5))) of
        Inl e \<Rightarrow> Inl e
      | Inr round_start \<Rightarrow>
          (let round_end = win_time;
               duration = round_end - round_start
           in rounds_loop first_gameplay_start valid_wins (i + 1) rest
                (if 30 \<le> duration \<and> duration \<le> 300
                 then rounds @
                        [\<lparr>r_round = int (length rounds) + 1,
                          r_start = round2 round_start,
                          r_end = round2 round_end,
                          r_duration = round2 duration\<rparr>]
                 else rounds)))"

definition build_rounds_from_wins ::
  "timestamp list \<Rightarrow> period list \<Rightarrow> error + round_rec list"
where
  "build_rounds_from_wins round_win_timestamps gameplay_periods =
     (if round_win_timestamps = [] then Inr []
      else
        (let valid_wins = filter_wins round_win_timestamps gameplay_periods []
         in if valid_wins = [] then Inr []
            else
              (case (if gameplay_periods \<noteq> []
                     then (case list_index gameplay_periods 0 of
                             Inl e \<Rightarrow> Inl e
                           | Inr p \<Rightarrow> Inr (fst p))
                     else Inr 0) of
                 Inl e \<Rightarrow> Inl e
               | Inr first_gameplay_start \<Rightarrow>
                   rounds_loop first_gameplay_start valid_wins 0 valid_wins [])))"

section \<open>The caller\<close>



section \<open>The specification's description of the two components\<close>

text \<open>
  The definitions of this section follow the words of the specification (sections 4.1 and
  4.2), not the loops of the source: the theorems below compare the two.
\<close>

text \<open>A timestamp lies within the closed bound of a period.\<close>

definition in_period :: "timestamp \<Rightarrow> period \<Rightarrow> bool" where
  "in_period t p = (fst p \<le> t \<and> t \<le> snd p)"

text \<open>
  Step 1 of the round builder: the events that fall within some period, in their order.
\<close>

definition spec_valid_events :: "timestamp list \<Rightarrow> period list \<Rightarrow> timestamp list" where
  "spec_valid_events events periods = filter (\<lambda>t. list_ex (in_period t) periods) events"

text \<open>The start of the first period; the source takes 0 when there is no period.\<close>

definition spec_first_period_start :: "period list \<Rightarrow> timestamp" where
  "spec_first_period_start periods = (case periods of [] \<Rightarrow> 0 | p # _ \<Rightarrow> fst p)"

text \<open>
  Step 2: the candidate interval \<open>(start, end)\<close> of the \<open>i\<close>-th surviving event, with the
  pre-round buffer of 90 seconds and the gap of 5 seconds after a win.
\<close>

definition spec_candidate :: "timestamp \<Rightarrow> timestamp list \<Rightarrow> nat \<Rightarrow> timestamp \<times> timestamp" where
  "spec_candidate first_start event i =
     (if i = 0 then max first_start (event ! 0 - 90) else event ! (i - 1) + 5, event ! i)"

definition spec_candidates :: "timestamp \<Rightarrow> timestamp list \<Rightarrow> (timestamp \<times> timestamp) list" where
  "spec_candidates first_start event = map (spec_candidate first_start event) [0..<length event]"

text \<open>Step 3: the plausibility filter, on the unrounded duration.\<close>

definition plausible :: "timestamp \<times> timestamp \<Rightarrow> bool" where
  "plausible c = (30 \<le> snd c - fst c \<and> snd c - fst c \<le> 300)"

text \<open>
  A candidate becomes a Round with index \<open>n\<close>; only here are the values rounded to two
  decimal places.
\<close>

definition externalise :: "int \<Rightarrow> timestamp \<times> timestamp \<Rightarrow> round_rec" where
  "externalise n c =
     \<lparr>r_round = n, r_start = round2 (fst c), r_end = round2 (snd c),
      r_duration = round2 (snd c - fst c)\<rparr>"

text \<open>Accepted candidates are numbered \<open>k + 1\<close>, \<open>k + 2\<close>, ... in their order.\<close>

fun number_from :: "nat \<Rightarrow> (timestamp \<times> timestamp) list \<Rightarrow> round_rec list" where
  "number_from k [] = []"
| "number_from k (c # cs) = externalise (int k + 1) c # number_from (Suc k) cs"

text \<open>
  The pairs of consecutive samples, and the test that a pair is further apart than the
  inactivity threshold of 180 seconds.
\<close>

definition long_gap :: "timestamp \<times> timestamp \<Rightarrow> bool" where
  "long_gap g = (snd g - fst g > 180)"

definition gaps :: "timestamp list \<Rightarrow> (timestamp \<times> timestamp) list" where
  "gaps xs = zip xs (tl xs)"

section \<open>An accumulator-free form of the segmenter's loop\<close>

text \<open>
  A device of the proofs, read off the source loop \<^const>\<open>periods_loop\<close>: the periods
  that it will still close, the final one included, when the open period started at
  \<open>cs\<close> and the cursor stands at \<open>lt\<close>. Lemma \<open>periods_loop_eq\<close> below relates the two.
\<close>

fun close_periods :: "timestamp \<Rightarrow> timestamp \<Rightarrow> timestamp list \<Rightarrow> period list" where
  "close_periods cs lt [] = [(cs, lt)]"
| "close_periods cs lt (t # ts) =
     (if t - lt > 180 then (cs, lt) # close_periods t t ts else close_periods cs t ts)"

section \<open>The loops of the round builder compute the specification's description\<close>

lemma list_index_nat: "n < length xs \<Longrightarrow> list_index xs (int n) = Inr (xs ! n)"
  by (simp add: list_index_def)

lemma scan_periods_eq:
  "scan_periods w ps acc = (if list_ex (in_period w) ps then acc @ [w] else acc)"
  by (induction ps) (auto simp: in_period_def)

lemma filter_wins_eq:
  "filter_wins ws ps acc = acc @ spec_valid_events ws ps"
  by (induction ws arbitrary: acc) (auto simp: scan_periods_eq spec_valid_events_def)

lemma number_from_append:
  "number_from k (cs @ ds) = number_from k cs @ number_from (k + length cs) ds"
  by (induction cs arbitrary: k) auto

lemma length_number_from [simp]: "length (number_from k cs) = length cs"
  by (induction cs arbitrary: k) auto

lemma rounds_loop_eq:
  "vw = pre @ rest \<Longrightarrow>
   rounds_loop fgs vw (int (length pre)) rest rounds =
     Inr (rounds @ number_from (length rounds)
            (filter plausible (map (spec_candidate fgs vw) [length pre..<length vw])))"
proof (induction rest arbitrary: pre rounds)
  case Nil
  then show ?case by simp
next
  case (Cons w rest)
  have vw: "vw = (pre @ [w]) @ rest" using Cons.prems by simp
  have len: "length pre < length vw" using Cons.prems by simp
  have nthw: "vw ! length pre = w" using Cons.prems by simp
  have upt: "[length pre..<length vw] = length pre # [length (pre @ [w])..<length vw]"
    using len by (simp add: upt_conv_Cons)
  have start: "(if int (length pre) = 0 then Inr (max fgs (w - 90))
            else (case list_index vw (int (length pre) - 1) of
                    Inl e \<Rightarrow> Inl e
                  | Inr prev \<Rightarrow> Inr (prev + 5))) = Inr (fst (spec_candidate fgs vw (length pre)))"
  proof (cases "length pre")
    case 0
    then show ?thesis using nthw by (simp add: spec_candidate_def)
  next
    case (Suc m)
    then have "int (length pre) - 1 = int m" by simp
    moreover have "m < length vw" using Suc len by simp
    ultimately show ?thesis using Suc by (simp add: spec_candidate_def list_index_nat)
  qed
  have snd_c: "snd (spec_candidate fgs vw (length pre)) = w"
    using nthw by (simp add: spec_candidate_def)
  have step: "int (length pre) + 1 = int (length (pre @ [w]))" by simp
  show ?case
    unfolding rounds_loop.simps start sum.case Let_def step upt
    by (simp only: Cons.IH[OF vw])
       (auto simp: plausible_def snd_c externalise_def number_from_append)
qed

lemma build_rounds_eq:
  "build_rounds_from_wins wins periods =
     Inr (number_from 0 (filter plausible
        (spec_candidates (spec_first_period_start periods) (spec_valid_events wins periods))))"
proof -
  have fs: "(if periods \<noteq> [] then (case list_index periods 0 of Inl e \<Rightarrow> Inl e | Inr p \<Rightarrow> Inr (fst p))
             else Inr 0) = Inr (spec_first_period_start periods)"
    by (cases periods) (simp_all add: spec_first_period_start_def list_index_def)
  have loop: "rounds_loop fgs vw 0 vw [] = Inr (number_from 0 (filter plausible (spec_candidates fgs vw)))" for fgs vw
    using rounds_loop_eq[of vw "[]" vw fgs "[]"] by (simp add: spec_candidates_def)
  have e: "spec_valid_events [] periods = []" by (simp add: spec_valid_events_def)
  show ?thesis
    unfolding build_rounds_from_wins_def filter_wins_eq Let_def fs sum.case loop
    by (auto simp: e spec_candidates_def)
qed

section \<open>Rounding to two decimal places\<close>

lemma rhe_bounds:
  "of_int (round_half_even q) \<le> q + 1 / 2 \<and> q - 1 / 2 \<le> of_int (round_half_even q)"
proof -
  have "of_int \<lfloor>q\<rfloor> \<le> q" "q < of_int \<lfloor>q\<rfloor> + 1" by linarith+
  then show ?thesis unfolding round_half_even_def Let_def by (auto split: if_splits) linarith+
qed

lemma rhe_of_int [simp]: "round_half_even (of_int n) = n"
  by (simp add: round_half_even_def)

lemma rhe_mono: "x \<le> y \<Longrightarrow> round_half_even x \<le> round_half_even y"
proof -
  assume xy: "x \<le> y"
  have fx: "of_int \<lfloor>x\<rfloor> \<le> x" "x < of_int \<lfloor>x\<rfloor> + 1" by linarith+
  have fy: "of_int \<lfloor>y\<rfloor> \<le> y" "y < of_int \<lfloor>y\<rfloor> + 1" by linarith+
  have le: "\<lfloor>x\<rfloor> \<le> \<lfloor>y\<rfloor>" using xy by (rule floor_mono)
  show ?thesis
  proof (cases "\<lfloor>x\<rfloor> = \<lfloor>y\<rfloor>")
    case True
    then show ?thesis using xy by (auto simp: round_half_even_def Let_def)
  next
    case False
    then have "\<lfloor>x\<rfloor> + 1 \<le> \<lfloor>y\<rfloor>" using le by simp
    moreover have "round_half_even x \<le> \<lfloor>x\<rfloor> + 1" by (auto simp: round_half_even_def Let_def)
    moreover have "\<lfloor>y\<rfloor> \<le> round_half_even y" by (auto simp: round_half_even_def Let_def)
    ultimately show ?thesis by linarith
  qed
qed

lemma round2_mono: "x \<le> y \<Longrightarrow> round2 x \<le> round2 y"
  by (simp add: round2_def rhe_mono divide_right_mono)

lemma round2_of_int [simp]: "round2 (of_int n) = of_int n"
proof -
  have "of_int n * (100::rat) = of_int (n * 100)" by simp
  then show ?thesis unfolding round2_def by (simp only: rhe_of_int) 
qed

lemma round2_30: "round2 30 = 30" using round2_of_int[of 30] by simp
lemma round2_300: "round2 300 = 300" using round2_of_int[of 300] by simp

lemma round2_bounds: "round2 x \<le> x + 1 / 200 \<and> x - 1 / 200 \<le> round2 x"
  using rhe_bounds[of "x * 100"] by (simp add: round2_def field_simps)

section \<open>The loop of the segmenter\<close>

lemma periods_loop_eq:
  "(case periods_loop ts (cs, lt, gp) of (a, b, g) \<Rightarrow> g @ [(a, b)]) = gp @ close_periods cs lt ts"
  by (induction ts arbitrary: cs lt gp) (auto simp: Let_def)

lemma detect_Nil: "detect_gameplay_periods [] = Inr []"
  by (simp add: detect_gameplay_periods_def)

lemma detect_Cons: "detect_gameplay_periods (x # xs) = Inr (close_periods x x xs)"
proof -
  obtain a b g where p: "periods_loop xs (x, x, []) = (a, b, g)"
    by (cases "periods_loop xs (x, x, [])") auto
  have "g @ [(a, b)] = close_periods x x xs"
    using periods_loop_eq[of xs x x "[]"] p by simp
  then show ?thesis
    using p by (simp add: detect_gameplay_periods_def list_index_def)
qed

lemma close_periods_starts:
  "map fst (close_periods cs lt ts) = cs # map snd (filter long_gap (gaps (lt # ts)))"
  by (induction ts arbitrary: cs lt) (auto simp: gaps_def long_gap_def)

lemma close_periods_ends:
  "map snd (close_periods cs lt ts) = map fst (filter long_gap (gaps (lt # ts))) @ [last (lt # ts)]"
  by (induction ts arbitrary: cs lt) (auto simp: gaps_def long_gap_def)

lemma close_periods_single:
  "filter long_gap (gaps (lt # ts)) = [] \<Longrightarrow> close_periods cs lt ts = [(cs, last (lt # ts))]"
  by (induction ts arbitrary: cs lt) (auto simp: gaps_def long_gap_def split: if_splits)

lemma close_periods_bounds:
  "sorted (lt # ts) \<Longrightarrow> cs \<le> lt \<Longrightarrow> p \<in> set (close_periods cs lt ts) \<Longrightarrow>
   cs \<le> fst p \<and> fst p \<le> snd p \<and> lt \<le> snd p"
proof (induction ts arbitrary: cs lt)
  case Nil
  then show ?case by simp
next
  case (Cons t ts)
  have st: "sorted (t # ts)" and le: "lt \<le> t" using Cons.prems(1) by auto
  show ?case
  proof (cases "t - lt > 180")
    case True
    show ?thesis
    proof (cases "p = (cs, lt)")
      case True
      then show ?thesis using Cons.prems(2) by simp
    next
      case False
      then have "p \<in> set (close_periods t t ts)"
        using Cons.prems(3) \<open>t - lt > 180\<close> by simp
      from Cons.IH[OF st order_refl this] show ?thesis
        using le Cons.prems(2) by linarith
    qed
  next
    case False
    then have "p \<in> set (close_periods cs t ts)" using Cons.prems(3) by simp
    moreover have "cs \<le> t" using Cons.prems(2) le by simp
    ultimately show ?thesis using Cons.IH[OF st, of cs] le by force
  qed
qed

lemma close_periods_ordered:
  "sorted (lt # ts) \<Longrightarrow> cs \<le> lt \<Longrightarrow>
   sorted_wrt (\<lambda>p q. snd p < fst q) (close_periods cs lt ts)"
proof (induction ts arbitrary: cs lt)
  case Nil
  then show ?case by simp
next
  case (Cons t ts)
  have st: "sorted (t # ts)" and le: "lt \<le> t" using Cons.prems(1) by auto
  show ?case
  proof (cases "t - lt > 180")
    case True
    have "lt < fst q" if "q \<in> set (close_periods t t ts)" for q
      using close_periods_bounds[OF st order_refl that] True by linarith
    then show ?thesis using True Cons.IH[OF st order_refl] by simp
  next
    case False
    have "cs \<le> t" using Cons.prems(2) le by simp
    then show ?thesis using False Cons.IH[OF st] by simp
  qed
qed

lemma close_periods_cover:
  "sorted (lt # ts) \<Longrightarrow> cs \<le> lt \<Longrightarrow> cs \<le> x \<Longrightarrow> x \<le> lt \<or> x \<in> set ts \<Longrightarrow>
   \<exists>p\<in>set (close_periods cs lt ts). fst p \<le> x \<and> x \<le> snd p"
proof (induction ts arbitrary: cs lt)
  case Nil
  then show ?case by simp
next
  case (Cons t ts)
  have st: "sorted (t # ts)" and le: "lt \<le> t" using Cons.prems(1) by auto
  show ?case
  proof (cases "t - lt > 180")
    case True
    show ?thesis
    proof (cases "x \<le> lt")
      case True
      then show ?thesis using \<open>t - lt > 180\<close> Cons.prems(3) by simp
    next
      case False
      then have xin: "x \<in> set (t # ts)" using Cons.prems(4) by simp
      then have "t \<le> x" using st by auto
      moreover have "x \<le> t \<or> x \<in> set ts" using xin by auto
      ultimately obtain p where "p \<in> set (close_periods t t ts)" "fst p \<le> x \<and> x \<le> snd p"
        using Cons.IH[OF st order_refl] by blast
      then show ?thesis using True by auto
    qed
  next
    case False
    have c: "cs \<le> t" using Cons.prems(2) le by simp
    have "x \<le> t \<or> x \<in> set ts" using Cons.prems(4) le by auto
    from Cons.IH[OF st c Cons.prems(3) this] show ?thesis using False by simp
  qed
qed

section \<open>Numbering and fields of the externalised rounds\<close>

lemma number_from_nth:
  "i < length cs \<Longrightarrow> number_from k cs ! i = externalise (int k + int i + 1) (cs ! i)"
proof (induction cs arbitrary: k i)
  case Nil
  then show ?case by simp
next
  case (Cons c cs)
  then show ?case by (cases i) (simp_all add: algebra_simps)
qed

lemma number_from_set:
  "r \<in> set (number_from k cs) \<Longrightarrow> \<exists>c\<in>set cs. \<exists>n. r = externalise n c"
  by (induction cs arbitrary: k) auto

lemma number_from_indices:
  "map r_round (number_from k cs) = [int k + 1..int k + int (length cs)]"
proof (induction cs arbitrary: k)
  case Nil
  then show ?case by simp
next
  case (Cons c cs)
  have "[int k + 1..int k + int (length (c # cs))] =
        (int k + 1) # [int (Suc k) + 1..int (Suc k) + int (length cs)]"
    by (subst upto.simps) (simp add: algebra_simps)
  then show ?case using Cons.IH[of "Suc k"] by (simp add: externalise_def)
qed

lemma number_from_fields:
  "map (\<lambda>r. (r_start r, r_end r, r_duration r)) (number_from k cs) =
   map (\<lambda>c. (round2 (fst c), round2 (snd c), round2 (snd c - fst c))) cs"
  by (induction cs arbitrary: k) (auto simp: externalise_def)

lemma map_snd_spec_candidates: "map snd (spec_candidates fs ev) = ev"
  by (simp add: spec_candidates_def spec_candidate_def map_nth comp_def)

text \<open>
  Ascending events give ascending surviving events, and then each candidate starts at
  least 5 seconds after every earlier candidate's end.
\<close>

lemma spec_valid_events_sorted: "sorted events \<Longrightarrow> sorted (spec_valid_events events periods)"
  by (simp add: spec_valid_events_def sorted_wrt_filter)

lemma spec_candidates_chain:
  assumes "sorted ev"
  shows "sorted_wrt (\<lambda>c d. snd c + 5 \<le> fst d) (spec_candidates fs ev)"
proof -
  have "snd (spec_candidate fs ev i) + 5 \<le> fst (spec_candidate fs ev j)"
    if "i < j" "j < length ev" for i j
  proof -
    have "i \<le> j - 1" "j - 1 < length ev" using that by simp_all
    then have "ev ! i \<le> ev ! (j - 1)" using assms by (simp add: sorted_nth_mono)
    then show ?thesis using that by (simp add: spec_candidate_def)
  qed
  then show ?thesis
    by (simp add: spec_candidates_def sorted_wrt_iff_nth_less)
qed








section \<open>Claims about the round builder and the segmenter\<close>

text \<open>
  Claim C1. \<^verbatim>\<open>build_rounds_from_wins\<close> returns the accepted candidates, numbered and
  externalised, where the candidate of the \<open>i\<close>-th surviving event \<open>event ! i\<close> ends at
  that event and starts at \<open>max first_start (event ! 0 - 90)\<close> when \<open>i = 0\<close> and at
  \<open>event ! (i - 1) + 5\<close> otherwise (\<^const>\<open>spec_candidate\<close>). For the events
  \<open>[95, 280]\<close> and the single period \<open>(0, 400)\<close> the result is exactly the round 1 from 5
  to 95 of duration 90 and the round 2 from 100 to 280 of duration 180. The equation holds
  for every input, ascending or not.
\<close>

theorem C1_candidate_intervals:
  "build_rounds_from_wins events periods =
     Inr (number_from 0 (filter plausible
        (spec_candidates (spec_first_period_start periods) (spec_valid_events events periods))))
   \<and> build_rounds_from_wins [95, 280] [(0, 400)] =
     Inr [\<lparr>r_round = 1, r_start = 5, r_end = 95, r_duration = 90\<rparr>,
          \<lparr>r_round = 2, r_start = 100, r_end = 280, r_duration = 180\<rparr>]"
proof
  show "build_rounds_from_wins events periods =
     Inr (number_from 0 (filter plausible
        (spec_candidates (spec_first_period_start periods) (spec_valid_events events periods))))"
    by (rule build_rounds_eq)
  show "build_rounds_from_wins [95, 280] [(0, 400)] =
     Inr [\<lparr>r_round = 1, r_start = 5, r_end = 95, r_duration = 90\<rparr>,
          \<lparr>r_round = 2, r_start = 100, r_end = 280, r_duration = 180\<rparr>]"
    by code_simp
qed

text \<open>
  Claim C2. Every round returned has a duration field between 30 and 300, both
  inclusive, and the rounds returned are exactly the candidates whose unrounded duration
  lies in that closed range, in order: a candidate of duration exactly 30 or exactly 300
  is accepted, a candidate outside the range is absent.
\<close>

theorem C2_duration_bounds:
  "build_rounds_from_wins events periods = Inr rounds \<Longrightarrow>
     (\<forall>r\<in>set rounds. 30 \<le> r_duration r \<and> r_duration r \<le> 300) \<and>
     map (\<lambda>r. (r_start r, r_end r, r_duration r)) rounds =
       map (\<lambda>c. (round2 (fst c), round2 (snd c), round2 (snd c - fst c)))
         (filter (\<lambda>c. 30 \<le> snd c - fst c \<and> snd c - fst c \<le> 300)
            (spec_candidates (spec_first_period_start periods)
               (spec_valid_events events periods)))"
proof -
  assume b: "build_rounds_from_wins events periods = Inr rounds"
  define cs where "cs = filter plausible
     (spec_candidates (spec_first_period_start periods) (spec_valid_events events periods))"
  have rounds: "rounds = number_from 0 cs"
    using b unfolding build_rounds_eq cs_def by simp
  have "30 \<le> r_duration r \<and> r_duration r \<le> 300" if "r \<in> set rounds" for r
  proof -
    have "r \<in> set (number_from 0 cs)" using that rounds by simp
    then obtain c n where c: "c \<in> set cs" and r: "r = externalise n c"
      using number_from_set by blast
    have "plausible c" using c by (simp add: cs_def)
    then have "round2 30 \<le> round2 (snd c - fst c)" "round2 (snd c - fst c) \<le> round2 300"
      by (simp_all add: plausible_def round2_mono)
    then show ?thesis using r by (simp add: externalise_def round2_30 round2_300)
  qed
  moreover have "plausible = (\<lambda>c. 30 \<le> snd c - fst c \<and> snd c - fst c \<le> 300)"
    by (rule ext) (simp add: plausible_def)
  then have "map (\<lambda>r. (r_start r, r_end r, r_duration r)) rounds =
       map (\<lambda>c. (round2 (fst c), round2 (snd c), round2 (snd c - fst c)))
         (filter (\<lambda>c. 30 \<le> snd c - fst c \<and> snd c - fst c \<le> 300)
            (spec_candidates (spec_first_period_start periods)
               (spec_valid_events events periods)))"
    unfolding rounds number_from_fields cs_def by simp
  ultimately show ?thesis by blast
qed

text \<open>
  The four candidates of the events \<open>[30, 335, 641, 670]\<close> have the durations 30, 300,
  301 and 24: the first two are returned, the last two are not.
\<close>

theorem C2_duration_bounds_witness:
  "build_rounds_from_wins [30, 335, 641, 670] [(0, 1000)] =
     Inr [\<lparr>r_round = 1, r_start = 0, r_end = 30, r_duration = 30\<rparr>,
          \<lparr>r_round = 2, r_start = 35, r_end = 335, r_duration = 300\<rparr>] \<and>
   30 \<le> r_duration \<lparr>r_round = 1, r_start = 0, r_end = 30, r_duration = 30\<rparr> \<and>
   r_duration \<lparr>r_round = 2, r_start = 35, r_end = 335, r_duration = 300\<rparr> \<le> 300 \<and>
   spec_candidates (spec_first_period_start [(0, 1000)])
      (spec_valid_events [30, 335, 641, 670] [(0, 1000)]) =
     [(0, 30), (35, 335), (340, 641), (646, 670)]"
proof -
  have h: "build_rounds_from_wins [30, 335, 641, 670] [(0, 1000)] =
     Inr [\<lparr>r_round = 1, r_start = 0, r_end = 30, r_duration = 30\<rparr>,
          \<lparr>r_round = 2, r_start = 35, r_end = 335, r_duration = 300\<rparr>]"
    by code_simp
  have c: "spec_candidates (spec_first_period_start [(0, 1000)])
      (spec_valid_events [30, 335, 641, 670] [(0, 1000)]) =
     [(0, 30), (35, 335), (340, 641), (646, 670)]"
    by code_simp
  have "\<forall>r\<in>set [\<lparr>r_round = 1, r_start = 0, r_end = 30, r_duration = 30\<rparr>,
          \<lparr>r_round = 2, r_start = 35, r_end = 335, r_duration = (300 :: timestamp)\<rparr>].
      30 \<le> r_duration r \<and> r_duration r \<le> 300"
    using C2_duration_bounds[OF h] by blast
  then show ?thesis using h c by simp
qed

text \<open>
  Claim C3. For a non-empty sample sequence the segmenter splits exactly at the pairs of
  consecutive samples more than 180 seconds apart: the periods start at the first sample
  and at each sample that follows such a gap, and end at each sample that precedes such
  a gap and at the last sample. With no such gap the result is the single period from
  the first to the last sample. A gap of 175 or of exactly 180 does not split, a gap of
  185 does. No order of the samples is assumed.
\<close>

theorem C3_split_on_long_gap:
  "samples \<noteq> [] \<Longrightarrow>
     \<exists>ps. detect_gameplay_periods samples = Inr ps \<and>
        map fst ps = hd samples # map snd (filter long_gap (gaps samples)) \<and>
        map snd ps = map fst (filter long_gap (gaps samples)) @ [last samples] \<and>
        (filter long_gap (gaps samples) = [] \<longrightarrow> ps = [(hd samples, last samples)])"
proof -
  assume "samples \<noteq> []"
  then obtain x xs where s: "samples = x # xs" by (cases samples) auto
  show ?thesis
    unfolding s detect_Cons
    using close_periods_starts[of x x xs] close_periods_ends[of x x xs]
      close_periods_single[of x xs x]
    by simp
qed

theorem C3_split_on_long_gap_witness:
  "[0, 175, 355, 540, 545] \<noteq> ([] :: timestamp list) \<and>
   filter long_gap (gaps [0, 175, 355, 540, 545]) = [(355, 540)] \<and>
   detect_gameplay_periods [0, 175, 355, 540, 545] = Inr [(0, 355), (540, 545)] \<and>
   [0, 175] \<noteq> ([] :: timestamp list) \<and>
   filter long_gap (gaps [0, 175]) = [] \<and>
   detect_gameplay_periods [0, 175] = Inr [(0, 175)] \<and>
   detect_gameplay_periods [0, 180] = Inr [(0, 180)] \<and>
   detect_gameplay_periods [0, 185] = Inr [(0, 0), (185, 185)]"
proof -
  have n: "[0, 175, 355, 540, 545] \<noteq> ([] :: timestamp list)" by simp
  have g: "filter long_gap (gaps [0, 175, 355, 540, 545]) = [(355, 540)]"
    by (simp add: gaps_def long_gap_def)
  have n': "[0, 175] \<noteq> ([] :: timestamp list)" by simp
  have g': "filter long_gap (gaps [0, 175]) = []"
    by (simp add: gaps_def long_gap_def)
  have a: "detect_gameplay_periods [0, 175] = Inr [(0, 175)]"
    using C3_split_on_long_gap[OF n'] g' by auto
  have b: "detect_gameplay_periods [0, 185] = Inr [(0, 0), (185, 185)]" by code_simp
  have b': "detect_gameplay_periods [0, 180] = Inr [(0, 180)]" by code_simp
  obtain ps where ps: "detect_gameplay_periods [0, 175, 355, 540, 545] = Inr ps"
      "map fst ps = [0, 540]" "map snd ps = [355, 545]"
    using C3_split_on_long_gap[OF n] unfolding g by auto
  have "ps = zip (map fst ps) (map snd ps)" by (simp add: zip_map_fst_snd)
  then have "ps = [(0, 355), (540, 545)]" unfolding ps(2,3) by simp
  then show ?thesis using ps(1) n g n' g' a b b' by simp
qed

text \<open>
  Claim C4. For every input the \<^verbatim>\<open>'round'\<close> fields of the returned rounds are exactly
  \<open>1, 2, ..., n\<close> in output order, \<open>n\<close> being the number of rounds returned. A rejected
  candidate leaves no gap: of the four candidates of the events \<open>[60, 130, 145, 250]\<close> the
  third has duration 10 and is dropped, and the fourth is round 3.
\<close>

theorem C4_dense_indices:
  "(\<exists>rounds. build_rounds_from_wins events periods = Inr rounds \<and>
       map r_round rounds = [1..int (length rounds)])
   \<and> build_rounds_from_wins [60, 130, 145, 250] [(0, 1000)] =
     Inr [\<lparr>r_round = 1, r_start = 0, r_end = 60, r_duration = 60\<rparr>,
          \<lparr>r_round = 2, r_start = 65, r_end = 130, r_duration = 65\<rparr>,
          \<lparr>r_round = 3, r_start = 150, r_end = 250, r_duration = 100\<rparr>]"
proof
  show "\<exists>rounds. build_rounds_from_wins events periods = Inr rounds \<and>
       map r_round rounds = [1..int (length rounds)]"
    unfolding build_rounds_eq using number_from_indices[of 0] by simp
  show "build_rounds_from_wins [60, 130, 145, 250] [(0, 1000)] =
     Inr [\<lparr>r_round = 1, r_start = 0, r_end = 60, r_duration = 60\<rparr>,
          \<lparr>r_round = 2, r_start = 65, r_end = 130, r_duration = 65\<rparr>,
          \<lparr>r_round = 3, r_start = 150, r_end = 250, r_duration = 100\<rparr>]"
    by code_simp
qed

text \<open>
  Claim C5. For an ascending sample sequence the periods returned each have their start
  no later than their end, every earlier period ends strictly before every later one
  starts (so they do not overlap and are in chronological order), and every sample lies
  within the closed bound of exactly one period.
\<close>

theorem C5_periods_partition_samples:
  "sorted samples \<Longrightarrow>
     \<exists>ps. detect_gameplay_periods samples = Inr ps \<and>
        (\<forall>p\<in>set ps. fst p \<le> snd p) \<and>
        (\<forall>i j. i < j \<and> j < length ps \<longrightarrow> snd (ps ! i) < fst (ps ! j)) \<and>
        (\<forall>x\<in>set samples. \<exists>!p. p \<in> set ps \<and> fst p \<le> x \<and> x \<le> snd p)"
proof (cases samples)
  case Nil
  then show ?thesis by (simp add: detect_Nil)
next
  case (Cons s rest)
  assume "sorted samples"
  then have srt: "sorted (s # rest)" using Cons by simp
  define ps where "ps = close_periods s s rest"
  have d: "detect_gameplay_periods samples = Inr ps"
    by (simp add: Cons detect_Cons ps_def)
  have bounds: "fst p \<le> snd p" if "p \<in> set ps" for p
    using close_periods_bounds[OF srt order_refl] that ps_def by blast
  have ord: "sorted_wrt (\<lambda>p q. snd p < fst q) ps"
    unfolding ps_def by (rule close_periods_ordered[OF srt order_refl])
  then have nth: "snd (ps ! i) < fst (ps ! j)" if "i < j" "j < length ps" for i j
    using that by (simp add: sorted_wrt_iff_nth_less)
  have uniq: "\<exists>!p. p \<in> set ps \<and> fst p \<le> x \<and> x \<le> snd p" if x: "x \<in> set samples" for x
  proof -
    have "s \<le> x" using x srt Cons by auto
    moreover have "x \<le> s \<or> x \<in> set rest" using x Cons by auto
    ultimately obtain p where p: "p \<in> set ps" "fst p \<le> x" "x \<le> snd p"
      using close_periods_cover[OF srt order_refl] ps_def by blast
    have "q = p" if q: "q \<in> set ps" "fst q \<le> x" "x \<le> snd q" for q
    proof -
      obtain i where i: "i < length ps" "ps ! i = p" using p(1) by (auto simp: in_set_conv_nth)
      obtain j where j: "j < length ps" "ps ! j = q" using q(1) by (auto simp: in_set_conv_nth)
      have "\<not> i < j" using nth[of i j] i j p q by force
      moreover have "\<not> j < i" using nth[of j i] i j p q by force
      ultimately have "i = j" by simp
      then show ?thesis using i j by simp
    qed
    then show ?thesis using p by blast
  qed
  from d bounds nth uniq show ?thesis by blast
qed

theorem C5_periods_partition_samples_witness:
  "sorted [0, 5, 10, 195, 200 :: timestamp] \<and>
   detect_gameplay_periods [0, 5, 10, 195, 200] = Inr [(0, 10), (195, 200)] \<and>
   (\<exists>!p. p \<in> set [(0, 10), (195, 200) :: period] \<and> fst p \<le> 10 \<and> 10 \<le> snd p) \<and>
   (\<exists>!p. p \<in> set [(0, 10), (195, 200) :: period] \<and> fst p \<le> 195 \<and> 195 \<le> snd p)"
proof -
  have s: "sorted [0, 5, 10, 195, 200 :: timestamp]" by simp
  have d: "detect_gameplay_periods [0, 5, 10, 195, 200] = Inr [(0, 10), (195, 200)]"
    by code_simp
  have "\<forall>x\<in>set [0, 5, 10, 195, 200 :: timestamp].
      \<exists>!p. p \<in> set [(0, 10), (195, 200)] \<and> fst p \<le> x \<and> x \<le> snd p"
    using C5_periods_partition_samples[OF s] d by simp
  then have "(\<exists>!p. p \<in> set [(0, 10), (195, 200) :: period] \<and> fst p \<le> 10 \<and> 10 \<le> snd p) \<and>
   (\<exists>!p. p \<in> set [(0, 10), (195, 200) :: period] \<and> fst p \<le> 195 \<and> 195 \<le> snd p)"
    by simp
  then show ?thesis using s d by blast
qed

text \<open>
  Claim C6. For an ascending event sequence the rounds returned do not overlap: of two
  consecutive rounds the later one starts strictly after the earlier one ends, on the
  rounded fields. No order of the periods is needed.
\<close>

theorem C6_rounds_do_not_overlap:
  "sorted events \<Longrightarrow>
     \<exists>rounds. build_rounds_from_wins events periods = Inr rounds \<and>
        (\<forall>k. Suc k < length rounds \<longrightarrow> r_end (rounds ! k) < r_start (rounds ! Suc k))"
proof -
  assume srt: "sorted events"
  define cs where "cs = filter plausible
     (spec_candidates (spec_first_period_start periods) (spec_valid_events events periods))"
  have chain: "sorted_wrt (\<lambda>c d. snd c + 5 \<le> fst d) cs"
    unfolding cs_def
    by (intro sorted_wrt_filter spec_candidates_chain spec_valid_events_sorted srt)
  have "r_end (number_from 0 cs ! k) < r_start (number_from 0 cs ! Suc k)"
    if k: "Suc k < length (number_from 0 cs)" for k
  proof -
    have len: "Suc k < length cs" using k by simp
    then have "snd (cs ! k) + 5 \<le> fst (cs ! Suc k)"
      using chain by (simp add: sorted_wrt_iff_nth_less)
    moreover have "round2 (snd (cs ! k)) \<le> snd (cs ! k) + 1 / 200"
      using round2_bounds by blast
    moreover have "fst (cs ! Suc k) - 1 / 200 \<le> round2 (fst (cs ! Suc k))"
      using round2_bounds by blast
    ultimately have "round2 (snd (cs ! k)) < round2 (fst (cs ! Suc k))" by linarith
    then show ?thesis using len by (simp add: number_from_nth externalise_def)
  qed
  then show ?thesis unfolding build_rounds_eq cs_def by blast
qed

theorem C6_rounds_do_not_overlap_witness:
  "sorted [95, 280 :: timestamp] \<and>
   build_rounds_from_wins [95, 280] [(0, 400)] =
     Inr [\<lparr>r_round = 1, r_start = 5, r_end = 95, r_duration = 90\<rparr>,
          \<lparr>r_round = 2, r_start = 100, r_end = 280, r_duration = 180\<rparr>] \<and>
   r_end \<lparr>r_round = 1, r_start = 5, r_end = 95, r_duration = 90\<rparr>
     < r_start \<lparr>r_round = 2, r_start = 100, r_end = 280, r_duration = 180\<rparr>"
proof -
  have s: "sorted [95, 280 :: timestamp]" by simp
  have b: "build_rounds_from_wins [95, 280] [(0, 400)] =
     Inr [\<lparr>r_round = 1, r_start = 5, r_end = 95, r_duration = 90\<rparr>,
          \<lparr>r_round = 2, r_start = 100, r_end = 280, r_duration = 180\<rparr>]"
    by code_simp
  obtain rounds where r: "build_rounds_from_wins [95, 280] [(0, 400)] = Inr rounds"
     "\<forall>k. Suc k < length rounds \<longrightarrow> r_end (rounds ! k) < r_start (rounds ! Suc k)"
    using C6_rounds_do_not_overlap[OF s, of "[(0, 400)]"] by blast
  have "rounds = [\<lparr>r_round = 1, r_start = 5, r_end = 95, r_duration = 90\<rparr>,
          \<lparr>r_round = 2, r_start = 100, r_end = 280, r_duration = 180\<rparr>]"
    using r(1) b by simp
  then have "r_end \<lparr>r_round = 1, r_start = 5, r_end = 95, r_duration = 90\<rparr>
     < r_start \<lparr>r_round = 2, r_start = 100, r_end = 280, r_duration = 180\<rparr>"
    using r(2)[rule_format, of 0] by simp
  then show ?thesis using s b by blast
qed

text \<open>
  Claim C7. \<^verbatim>\<open>build_rounds_from_wins\<close> returns the empty list when there is no event
  and when there is no period, the segmenter returns the empty list on no sample, and
  neither raises on any input: the result is always a value (\<open>Inr\<close>), never the
  \<^verbatim>\<open>IndexError\<close> that the indexing \<^verbatim>\<open>valid_wins[i - 1]\<close>, \<^verbatim>\<open>gameplay_periods[0]\<close> or
  \<^verbatim>\<open>scene_changes[0]\<close> could raise.
\<close>

theorem C7_empty_inputs_no_exception:
  "build_rounds_from_wins [] periods = Inr [] \<and>
   build_rounds_from_wins events [] = Inr [] \<and>
   detect_gameplay_periods [] = Inr [] \<and>
   (\<exists>rounds. build_rounds_from_wins events periods = Inr rounds) \<and>
   (\<exists>ps. detect_gameplay_periods samples = Inr ps)"
proof -
  have a: "build_rounds_from_wins [] periods = Inr []"
    by (simp add: build_rounds_from_wins_def)
  have "filter_wins events [] acc = acc" for acc
    by (induction events arbitrary: acc) auto
  then have b: "build_rounds_from_wins events [] = Inr []"
    by (simp add: build_rounds_from_wins_def)
  have c: "detect_gameplay_periods [] = Inr []" by (rule detect_Nil)
  have d: "\<exists>rounds. build_rounds_from_wins events periods = Inr rounds"
    by (simp add: build_rounds_eq)
  have e: "\<exists>ps. detect_gameplay_periods samples = Inr ps"
    by (cases samples) (simp_all add: detect_Nil detect_Cons)
  from a b c d e show ?thesis by blast
qed





text \<open>
  Claim C10. The end fields of the rounds returned are the roundings of a subsequence of
  the input events, each of which lies within the closed bound of some input period. The
  start of a round has no such guarantee: for the ascending events \<open>[8, 250]\<close> and the
  ascending periods \<open>(0, 10)\<close>, \<open>(200, 400)\<close> the only round returned starts at 13, which
  lies in neither period.
\<close>

theorem C10_round_end_is_valid_event:
  "(\<exists>rounds ends. build_rounds_from_wins events periods = Inr rounds \<and>
       subseq ends events \<and> map r_end rounds = map round2 ends \<and>
       (\<forall>e\<in>set ends. e \<in> set events \<and> (\<exists>p\<in>set periods. fst p \<le> e \<and> e \<le> snd p)))
   \<and> sorted [8, 250 :: timestamp]
   \<and> build_rounds_from_wins [8, 250] [(0, 10), (200, 400)] =
       Inr [\<lparr>r_round = 1, r_start = 13, r_end = 250, r_duration = 237\<rparr>]
   \<and> \<not> (\<exists>p\<in>set [(0, 10), (200, 400) :: period]. fst p \<le> 13 \<and> 13 \<le> snd p)"
proof -
  define ev where "ev = spec_valid_events events periods"
  define cs where "cs = filter plausible (spec_candidates (spec_first_period_start periods) ev)"
  define ends where "ends = map snd cs"
  have b: "build_rounds_from_wins events periods = Inr (number_from 0 cs)"
    unfolding build_rounds_eq cs_def ev_def by simp
  have "subseq ends (map snd (spec_candidates (spec_first_period_start periods) ev))"
    unfolding ends_def cs_def by (intro subseq_map subseq_filter_left)
  then have s1: "subseq ends ev" by (simp add: map_snd_spec_candidates)
  have "subseq ev events" unfolding ev_def spec_valid_events_def by simp
  with s1 have sub: "subseq ends events" by (rule subseq_order.trans)
  have "map r_end (number_from 0 cs) = map (\<lambda>c. round2 (snd c)) cs"
    using number_from_fields[of 0 cs]
    by (simp add: list_eq_iff_nth_eq)
  then have fld: "map r_end (number_from 0 cs) = map round2 ends"
    by (simp add: ends_def comp_def)
  have "e \<in> set events \<and> (\<exists>p\<in>set periods. fst p \<le> e \<and> e \<le> snd p)" if "e \<in> set ends" for e
  proof -
    have "e \<in> set (map snd (spec_candidates (spec_first_period_start periods) ev))"
      using that unfolding ends_def cs_def by auto
    then have "e \<in> set ev" by (simp only: map_snd_spec_candidates)
    then show ?thesis
      by (auto simp: ev_def spec_valid_events_def list_ex_iff in_period_def)
  qed
  with b sub fld have g: "\<exists>rounds ends. build_rounds_from_wins events periods = Inr rounds \<and>
       subseq ends events \<and> map r_end rounds = map round2 ends \<and>
       (\<forall>e\<in>set ends. e \<in> set events \<and> (\<exists>p\<in>set periods. fst p \<le> e \<and> e \<le> snd p))"
    by blast
  have c: "build_rounds_from_wins [8, 250] [(0, 10), (200, 400)] =
       Inr [\<lparr>r_round = 1, r_start = 13, r_end = 250, r_duration = 237\<rparr>]"
    by code_simp
  from g c show ?thesis by simp
qed

theorem C10_round_end_is_valid_event_witness:
  "\<exists>ends. subseq ends [8, 250 :: timestamp] \<and>
      map r_end [\<lparr>r_round = 1, r_start = 13, r_end = 250, r_duration = 237\<rparr>] =
        map round2 ends \<and>
      (\<forall>e\<in>set ends. e \<in> set [8, 250] \<and>
         (\<exists>p\<in>set [(0, 10), (200, 400)]. fst p \<le> e \<and> e \<le> snd p))"
proof -
  have c: "build_rounds_from_wins [8, 250] [(0, 10), (200, 400)] =
       Inr [\<lparr>r_round = 1, r_start = 13, r_end = 250, r_duration = 237\<rparr>]"
    by code_simp
  obtain rounds ends where r: "build_rounds_from_wins [8, 250] [(0, 10), (200, 400)] = Inr rounds"
    and e: "subseq ends [8, 250]" "map r_end rounds = map round2 ends"
      "\<forall>e\<in>set ends. e \<in> set [8, 250] \<and>
         (\<exists>p\<in>set [(0, 10), (200, 400)]. fst p \<le> e \<and> e \<le> snd p)"
    using C10_round_end_is_valid_event[of "[8, 250]" "[(0, 10), (200, 400)]"] by blast
  have "rounds = [\<lparr>r_round = 1, r_start = 13, r_end = 250, r_duration = 237\<rparr>]"
    using r c by simp
  then show ?thesis using e by blast
qed

end
